theory Spec2Isabelle
  imports Main "HOL-Library.AList" "HOL-Library.Sublist" "HOL-Library.Char_ord" "HOL-Library.List_Lexorder"
begin

section \<open>The thumbnail work queue of VideoInfoViewer\<close>

text \<open>
  The fields of \<^verbatim>\<open>VideoInfoViewer\<close> that the thumbnail queue reads and writes.
  \<^verbatim>\<open>thumbnail_threads\<close> is a Python dict from file path to \<^verbatim>\<open>(thread, item)\<close>: an
  association list with distinct keys in insertion order. A thread object is named by the
  file path it was created for, a list widget item by the file path it carries as user
  data. The calls that leave the viewer's fields (starting, stopping and joining a thread,
  setting an icon) are recorded in \<open>effects\<close>, in program order. The list widget, the tabs
  and the status bar are not modelled: no queue field depends on them.
\<close>

datatype thread = ThumbnailGeneratorThread string

datatype item = QListWidgetItem string

type_synonym pixmap = nat

datatype effect = Start string | Stop string | Wait string | SetIcon item pixmap

record viewer =
  video_files :: "string list"
  thumbnail_threads :: "(string \<times> thread \<times> item) list"
  thumbnail_queue :: "(string \<times> item) list"
  max_concurrent_thumbnails :: int
  active_thumbnail_threads :: int
  effects :: "effect list"

text \<open>The queue fields as \<^verbatim>\<open>__init__\<close> sets them.\<close>

definition viewer_init :: viewer where
  "viewer_init =
     \<lparr>video_files = [], thumbnail_threads = [], thumbnail_queue = [],
      max_concurrent_thumbnails = 3, active_thumbnail_threads = 0, effects = []\<rparr>"

text \<open>\<^verbatim>\<open>file_path in self.thumbnail_threads\<close>\<close>

definition in_threads :: "viewer \<Rightarrow> string \<Rightarrow> bool" where
  "in_threads s file_path = (file_path \<in> fst ` set (thumbnail_threads s))"

text \<open>
  The part of the loop body of \<^verbatim>\<open>process_thumbnail_queue\<close> after the \<^verbatim>\<open>continue\<close>
  check: the thread is created, entered in the table, started and counted.
\<close>

definition start_thread :: "viewer \<Rightarrow> string \<Rightarrow> item \<Rightarrow> viewer" where
  "start_thread s file_path item =
     s\<lparr>thumbnail_threads :=
         AList.update file_path (ThumbnailGeneratorThread file_path, item) (thumbnail_threads s),
       effects := effects s @ [Start file_path],
       active_thumbnail_threads := active_thumbnail_threads s + 1\<rparr>"

text \<open>
  \<^verbatim>\<open>process_thumbnail_queue\<close>: the while loop, one recursive call per iteration. The
  \<^verbatim>\<open>continue\<close> branch drops the popped entry and starts nothing.
\<close>

function process_thumbnail_queue :: "viewer \<Rightarrow> viewer" where
  "process_thumbnail_queue s =
     (if active_thumbnail_threads s < max_concurrent_thumbnails s \<and> thumbnail_queue s \<noteq> [] then
        (case thumbnail_queue s of
           [] \<Rightarrow> s
         | (file_path, item) # rest \<Rightarrow>
             (let s1 = s\<lparr>thumbnail_queue := rest\<rparr> in
              if in_threads s1 file_path then process_thumbnail_queue s1
              else process_thumbnail_queue (start_thread s1 file_path item)))
      else s)"
  by pat_completeness auto
termination
  by (relation "measure (\<lambda>s. length (thumbnail_queue s))") (auto simp: start_thread_def)

declare process_thumbnail_queue.simps [simp del]

text \<open>\<^verbatim>\<open>queue_thumbnail_generation\<close>\<close>

definition queue_thumbnail_generation :: "viewer \<Rightarrow> string \<Rightarrow> item \<Rightarrow> viewer" where
  "queue_thumbnail_generation s file_path item =
     (if in_threads s file_path then s
      else process_thumbnail_queue
             (s\<lparr>thumbnail_queue := thumbnail_queue s @ [(file_path, item)]\<rparr>))"

text \<open>
  \<^verbatim>\<open>add_files_to_list\<close>: a path already in \<^verbatim>\<open>video_files\<close> is skipped; every other path
  gets a fresh list item and is queued.
\<close>

fun add_files_to_list :: "viewer \<Rightarrow> string list \<Rightarrow> viewer" where
  "add_files_to_list s [] = s"
| "add_files_to_list s (file_path # files) =
     (if file_path \<in> set (video_files s) then add_files_to_list s files
      else add_files_to_list
             (queue_thumbnail_generation
                (s\<lparr>video_files := video_files s @ [file_path]\<rparr>) file_path
                (QListWidgetItem file_path))
             files)"

text \<open>
  \<^verbatim>\<open>on_thumbnail_generated\<close> and \<^verbatim>\<open>on_thumbnail_error\<close>: the slots of the two signals of
  a thumbnail thread. A signal for a path that is not in the table changes nothing.
\<close>

definition on_thumbnail_generated :: "viewer \<Rightarrow> string \<Rightarrow> pixmap \<Rightarrow> viewer" where
  "on_thumbnail_generated s file_path pm =
     (case map_of (thumbnail_threads s) file_path of
        None \<Rightarrow> s
      | Some (thread, item) \<Rightarrow>
          process_thumbnail_queue
            (s\<lparr>thumbnail_threads := AList.delete file_path (thumbnail_threads s),
               effects := effects s @ [SetIcon item pm, Wait file_path],
               active_thumbnail_threads := active_thumbnail_threads s - 1\<rparr>))"

definition on_thumbnail_error :: "viewer \<Rightarrow> string \<Rightarrow> string \<Rightarrow> viewer" where
  "on_thumbnail_error s file_path error =
     (case map_of (thumbnail_threads s) file_path of
        None \<Rightarrow> s
      | Some (thread, item) \<Rightarrow>
          process_thumbnail_queue
            (s\<lparr>thumbnail_threads := AList.delete file_path (thumbnail_threads s),
               effects := effects s @ [Wait file_path],
               active_thumbnail_threads := active_thumbnail_threads s - 1\<rparr>))"

text \<open>
  \<^verbatim>\<open>clear_file_list\<close>: every thread of the table is stopped and joined, in the order of
  the dict, then table and queue are emptied and the counter is reset.
\<close>

definition clear_file_list :: "viewer \<Rightarrow> viewer" where
  "clear_file_list s =
     s\<lparr>effects := effects s @ concat (map (\<lambda>(file_path, _). [Stop file_path, Wait file_path])
                                         (thumbnail_threads s)),
       thumbnail_threads := [],
       thumbnail_queue := [],
       active_thumbnail_threads := 0,
       video_files := []\<rparr>"

text \<open>
  \<^verbatim>\<open>remove_selected_files\<close>: the body of the loop for one selected item, then the loop
  over the selected items, each given by the file path it carries. The pending queue is
  not touched by this function.
\<close>

definition remove_selected_file :: "viewer \<Rightarrow> string \<Rightarrow> viewer" where
  "remove_selected_file s file_path =
     (let s1 = (if file_path \<in> set (video_files s)
                then s\<lparr>video_files := remove1 file_path (video_files s)\<rparr> else s) in
      case map_of (thumbnail_threads s1) file_path of
        None \<Rightarrow> s1
      | Some (thread, item) \<Rightarrow>
          process_thumbnail_queue
            (s1\<lparr>thumbnail_threads := AList.delete file_path (thumbnail_threads s1),
                effects := effects s1 @ [Stop file_path, Wait file_path],
                active_thumbnail_threads := active_thumbnail_threads s1 - 1\<rparr>))"

fun remove_selected_files :: "viewer \<Rightarrow> string list \<Rightarrow> viewer" where
  "remove_selected_files s [] = s"
| "remove_selected_files s (file_path # selected) =
     remove_selected_files (remove_selected_file s file_path) selected"

text \<open>The operations the user interface and the threads can apply to the queue.\<close>

datatype queue_op =
    Enqueue string item
  | AddFiles "string list"
  | Generated string pixmap
  | Errored string string
  | RemoveSelected "string list"
  | ClearList
  | Admit

fun step :: "viewer \<Rightarrow> queue_op \<Rightarrow> viewer" where
  "step s (Enqueue file_path item) = queue_thumbnail_generation s file_path item"
| "step s (AddFiles files) = add_files_to_list s files"
| "step s (Generated file_path pm) = on_thumbnail_generated s file_path pm"
| "step s (Errored file_path error) = on_thumbnail_error s file_path error"
| "step s (RemoveSelected selected) = remove_selected_files s selected"
| "step s ClearList = clear_file_list s"
| "step s Admit = process_thumbnail_queue s"

definition run :: "viewer \<Rightarrow> queue_op list \<Rightarrow> viewer" where
  "run s ops = foldl step s ops"

text \<open>
  Two readings of the effect trace: the file paths of the threads started, and of the
  threads joined, each in program order.
\<close>

fun started :: "effect list \<Rightarrow> string list" where
  "started [] = []"
| "started (Start file_path # es) = file_path # started es"
| "started (e # es) = started es"

fun joined :: "effect list \<Rightarrow> string list" where
  "joined [] = []"
| "joined (Wait file_path # es) = file_path # joined es"
| "joined (e # es) = joined es"

text \<open>
  The invariant of the queue fields: the table has one entry per key, the counter is the
  number of entries, it stays below the ceiling, the ceiling is the constant of
  \<^verbatim>\<open>__init__\<close>, and the counter is the number of threads started less the number joined.
\<close>

definition queue_inv :: "viewer \<Rightarrow> bool" where
  "queue_inv s =
     (distinct (map fst (thumbnail_threads s)) \<and>
      active_thumbnail_threads s = int (length (thumbnail_threads s)) \<and>
      active_thumbnail_threads s \<le> max_concurrent_thumbnails s \<and>
      max_concurrent_thumbnails s = 3 \<and>
      active_thumbnail_threads s =
        int (length (started (effects s))) - int (length (joined (effects s))))"

section \<open>Python strings\<close>

text \<open>
  A Python \<^verbatim>\<open>str\<close> is a list of characters, a \<^typ>\<open>char\<close> standing for the code point of
  the same number; code points above 255 are outside the model. \<^verbatim>\<open>str.isspace\<close> on these
  code points: tab to carriage return, the four separators 0x1C to 0x1F, space, 0x85 and
  0xA0.
\<close>

definition py_isspace :: "char \<Rightarrow> bool" where
  "py_isspace c =
     (c \<in> set [CHR 0x09, CHR 0x0A, CHR 0x0B, CHR 0x0C, CHR 0x0D, CHR 0x1C, CHR 0x1D, CHR 0x1E,
               CHR 0x1F, CHR 0x20, CHR 0x85, CHR 0xA0])"

text \<open>\<^verbatim>\<open>s.strip()\<close> and \<^verbatim>\<open>s.strip(chars)\<close>\<close>

definition py_strip :: "string \<Rightarrow> string" where
  "py_strip s = rev (dropWhile py_isspace (rev (dropWhile py_isspace s)))"

definition py_strip_chars :: "string \<Rightarrow> string \<Rightarrow> string" where
  "py_strip_chars chars s =
     rev (dropWhile (\<lambda>c. c \<in> set chars) (rev (dropWhile (\<lambda>c. c \<in> set chars) s)))"

text \<open>\<^verbatim>\<open>sub in s\<close>\<close>

fun py_contains :: "string \<Rightarrow> string \<Rightarrow> bool" where
  "py_contains sub [] = (sub = [])"
| "py_contains sub (c # cs) = (prefix sub (c # cs) \<or> py_contains sub cs)"

text \<open>\<^verbatim>\<open>s.split(sep)\<close> for a separator of one character, and \<^verbatim>\<open>sep.join(xs)\<close>\<close>

fun py_split :: "char \<Rightarrow> string \<Rightarrow> string list" where
  "py_split sep [] = [[]]"
| "py_split sep (c # cs) =
     (if c = sep then [] # py_split sep cs
      else (case py_split sep cs of
              [] \<Rightarrow> [[c]]
            | w # ws \<Rightarrow> (c # w) # ws))"

fun py_join :: "string \<Rightarrow> string list \<Rightarrow> string" where
  "py_join sep [] = []"
| "py_join sep [x] = x"
| "py_join sep (x # y # ys) = x @ sep @ py_join sep (y # ys)"

text \<open>\<^verbatim>\<open>line.split("=", 1)[1]\<close> for a line that contains the separator\<close>

definition after_first :: "char \<Rightarrow> string \<Rightarrow> string" where
  "after_first sep line = tl (dropWhile (\<lambda>c. c \<noteq> sep) line)"

text \<open>
  \<^verbatim>\<open>f.readline()\<close> on the rest of a text file (decoded, newlines translated): the line
  with its newline, and what is left. At the end of the file the line is empty.
\<close>

definition readline :: "string \<Rightarrow> string \<times> string" where
  "readline text =
     (case dropWhile (\<lambda>c. c \<noteq> CHR 0x0A) text of
        [] \<Rightarrow> (text, [])
      | nl # rest \<Rightarrow> (takeWhile (\<lambda>c. c \<noteq> CHR 0x0A) text @ [nl], rest))"

text \<open>
  \<^verbatim>\<open>os.path.splitext(fn)[0]\<close> for a name without directory separator, as the entries of
  \<^verbatim>\<open>os.listdir\<close> are: the name up to its last dot, unless only dots come before that dot.
\<close>

definition splitext_root :: "string \<Rightarrow> string" where
  "splitext_root fn =
     (if CHR ''.'' \<notin> set fn then fn
      else (let root = rev (tl (dropWhile (\<lambda>c. c \<noteq> CHR ''.'') (rev fn)))
            in if set root \<subseteq> {CHR ''.''} then fn else root))"

text \<open>\<^verbatim>\<open>os.path.join(d, fn)\<close> with the POSIX separator\<close>

definition path_join :: "string \<Rightarrow> string \<Rightarrow> string" where
  "path_join d fn =
     (if prefix ''/'' fn then fn
      else if d = [] \<or> suffix ''/'' d then d @ fn
      else d @ ''/'' @ fn)"

section \<open>The plugin registry and lifecycle of VideoInfoViewer\<close>

text \<open>
  What the viewer's plugin methods see of the outside. The file system: whether a path is
  a directory, the entries of a directory, and the text of a file (\<open>None\<close> when opening or
  reading it raises). The importer: what \<^verbatim>\<open>spec_from_file_location\<close>, \<^verbatim>\<open>module_from_spec\<close>,
  the assertion and \<^verbatim>\<open>exec_module\<close> give for a path, a module or an exception.

  A module is what \<^verbatim>\<open>load_plugin\<close> and \<^verbatim>\<open>unload_plugin\<close> ask of it: whether it has a callable
  \<^verbatim>\<open>register\<close> and \<^verbatim>\<open>unregister\<close> (\<open>None\<close> when not), and whether the call returns or raises.
  A call is taken to leave the viewer's own tables alone: what a plugin does inside its
  entry points is not part of the viewer's code.
\<close>

datatype 'a outcome = Raises string | Returns 'a

datatype pyval = PyNone | PyObject nat

record py_module =
  register :: "pyval outcome option"
  unregister :: "unit outcome option"

record filesystem =
  isdir :: "string \<Rightarrow> bool"
  listdir :: "string \<Rightarrow> string list"
  read_text :: "string \<Rightarrow> string option"

type_synonym importer = "string \<Rightarrow> py_module outcome"

text \<open>
  An entry of \<^verbatim>\<open>plugins_loaded\<close>, the dict \<^verbatim>\<open>{"module": module, "handle": handle}\<close>. An entry
  of \<^verbatim>\<open>plugins_found\<close> is the dict \<^verbatim>\<open>{"path": path}\<close>, modelled by its path.
\<close>

record loaded_plugin =
  module :: py_module
  handle :: pyval

text \<open>What the plugin methods do outside the viewer's fields, in program order.\<close>

datatype host_event =
    MakeDirs string
  | RegisterCalled string
  | UnregisterCalled string pyval
  | StatusLoaded string
  | StatusBulk bool nat
  | TracebackPrinted string
  | CriticalBox string string

text \<open>
  The fields of \<^verbatim>\<open>VideoInfoViewer\<close> that the plugin methods read and write. The three dicts
  are association lists; \<open>qsettings\<close> is the store behind \<^verbatim>\<open>settings_api.qs\<close>. The status bar
  is present and visible, or not.
\<close>

record host =
  plugins_dir :: string
  plugins_found :: "(string \<times> string) list"
  plugins_loaded :: "(string \<times> loaded_plugin) list"
  qsettings :: "(string \<times> string) list"
  status_bar_visible :: bool
  events :: "host_event list"

text \<open>\<^verbatim>\<open>qs.value(key, default)\<close> and \<^verbatim>\<open>AppSettings.save(key, value)\<close>\<close>

definition qs_value :: "host \<Rightarrow> string \<Rightarrow> string \<Rightarrow> string" where
  "qs_value s key dflt = (case map_of (qsettings s) key of None \<Rightarrow> dflt | Some v \<Rightarrow> v)"

definition settings_save :: "host \<Rightarrow> string \<Rightarrow> string \<Rightarrow> host" where
  "settings_save s key v = s\<lparr>qsettings := AList.update key v (qsettings s)\<rparr>"

text \<open>\<^verbatim>\<open>_read_enabled_plugins\<close> and \<^verbatim>\<open>_write_enabled_plugins\<close>\<close>

definition read_enabled_plugins :: "host \<Rightarrow> string set" where
  "read_enabled_plugins s =
     (let raw = qs_value s ''plugins/enabled'' ''''
      in set (filter (\<lambda>n. n \<noteq> []) (map py_strip (py_split CHR '','' raw))))"

definition write_enabled_plugins :: "host \<Rightarrow> string set \<Rightarrow> host" where
  "write_enabled_plugins s names_set =
     settings_save s ''plugins/enabled'' (py_join '','' (sorted_list_of_set names_set))"

text \<open>
  \<^verbatim>\<open>scan_plugins\<close>. The test of the inner loop on a line, and the name it takes from a
  line that passes the test.
\<close>

definition declares_name :: "string \<Rightarrow> bool" where
  "declares_name line = (py_contains ''PLUGIN_NAME'' line \<and> py_contains ''='' line)"

definition declared_name :: "string \<Rightarrow> string" where
  "declared_name line =
     py_strip_chars [CHR 0x22, CHR 0x27, CHR '' ''] (py_strip (after_first CHR ''='' line))"

text \<open>
  The inner loop reads at most 40 lines; \<open>scan_name\<close> is that loop with the number of
  rounds left, and gives the variable \<^verbatim>\<open>name\<close> after it (\<open>None\<close> when it was never assigned).
\<close>

fun scan_name :: "nat \<Rightarrow> string \<Rightarrow> string option" where
  "scan_name 0 text = None"
| "scan_name (Suc n) text =
     (case readline text of
        (line, rest) \<Rightarrow>
          if line = [] then None
          else if declares_name line then Some (declared_name line)
          else scan_name n rest)"


text \<open>The name under which a readable candidate file is entered: \<^verbatim>\<open>if not name\<close> falls
  back to the file name without its extension, for no name and for the empty name.\<close>

definition plugin_name :: "string \<Rightarrow> string \<Rightarrow> string" where
  "plugin_name fn text =
     (case scan_name 40 text of
        None \<Rightarrow> splitext_root fn
      | Some name \<Rightarrow> if name = [] then splitext_root fn else name)"

text \<open>The loop over the directory entries. A file that cannot be read is passed over by
  the \<^verbatim>\<open>except: pass\<close> of the loop body.\<close>

fun scan_files :: "filesystem \<Rightarrow> host \<Rightarrow> string list \<Rightarrow> host" where
  "scan_files fs s [] = s"
| "scan_files fs s (fn # fns) =
     (if \<not> suffix ''.py'' fn then scan_files fs s fns
      else (let path = path_join (plugins_dir s) fn
            in case read_text fs path of
                 None \<Rightarrow> scan_files fs s fns
               | Some text \<Rightarrow>
                   scan_files fs
                     (s\<lparr>plugins_found := AList.update (plugin_name fn text) path (plugins_found s)\<rparr>)
                     fns))"


text \<open>
  \<^verbatim>\<open>load_plugin\<close>, with its return value. An exception of the import or of \<^verbatim>\<open>register\<close> is
  caught by the \<^verbatim>\<open>except Exception\<close> clause: the traceback is printed, a message box shown,
  and the result is \<^verbatim>\<open>False\<close>.
\<close>

definition load_failed :: "host \<Rightarrow> string \<Rightarrow> string \<Rightarrow> host \<times> bool" where
  "load_failed s name e = (s\<lparr>events := events s @ [TracebackPrinted e, CriticalBox name e]\<rparr>, False)"

definition load_done :: "host \<Rightarrow> string \<Rightarrow> py_module \<Rightarrow> pyval \<Rightarrow> host \<times> bool" where
  "load_done s name m h =
     (let s1 = s\<lparr>plugins_loaded :=
                  AList.update name \<lparr>module = m, handle = h\<rparr> (plugins_loaded s)\<rparr>
      in (if status_bar_visible s1 then s1\<lparr>events := events s1 @ [StatusLoaded name]\<rparr> else s1,
          True))"

definition load_plugin :: "importer \<Rightarrow> host \<Rightarrow> string \<Rightarrow> host \<times> bool" where
  "load_plugin imp s name =
     (if name \<in> fst ` set (plugins_loaded s) then (s, True)
      else (case map_of (plugins_found s) name of
              None \<Rightarrow> (s, False)
            | Some path \<Rightarrow>
                (case imp path of
                   Raises e \<Rightarrow> load_failed s name e
                 | Returns m \<Rightarrow>
                     (case register m of
                        None \<Rightarrow> load_done s name m PyNone
                      | Some r \<Rightarrow>
                          (let s1 = s\<lparr>events := events s @ [RegisterCalled name]\<rparr>
                           in case r of
                                Raises e \<Rightarrow> load_failed s1 name e
                              | Returns h \<Rightarrow> load_done s1 name m h)))))"

text \<open>
  \<^verbatim>\<open>unload_plugin\<close>: the entry is popped first; an exception of \<^verbatim>\<open>unregister\<close> is caught and
  its traceback printed.
\<close>

definition unload_plugin :: "host \<Rightarrow> string \<Rightarrow> host" where
  "unload_plugin s name =
     (case map_of (plugins_loaded s) name of
        None \<Rightarrow> s
      | Some item \<Rightarrow>
          (let s1 = s\<lparr>plugins_loaded := AList.delete name (plugins_loaded s)\<rparr>
           in case unregister (module item) of
                None \<Rightarrow> s1
              | Some r \<Rightarrow>
                  (let s2 = s1\<lparr>events := events s1 @ [UnregisterCalled name (handle item)]\<rparr>
                   in case r of
                        Raises e \<Rightarrow> s2\<lparr>events := events s2 @ [TracebackPrinted e]\<rparr>
                      | Returns u \<Rightarrow> s2)))"

text \<open>
  \<^verbatim>\<open>PluginHubDialog.bulk_set_enabled\<close> of the plugin manager, on the viewer it drives.
  \<open>names\<close> are the names of the visible selected rows. First the loop that edits the set
  read from the settings, then the single write and the loads or unloads.
\<close>

fun toggle_names :: "bool \<Rightarrow> string list \<Rightarrow> string set \<times> bool \<Rightarrow> string set \<times> bool" where
  "toggle_names on [] (current, changed) = (current, changed)"
| "toggle_names on (n # names) (current, changed) =
     toggle_names on names
       (if on \<and> n \<notin> current then (insert n current, True)
        else if \<not> on \<and> n \<in> current then (current - {n}, True)
        else (current, changed))"

fun load_each :: "importer \<Rightarrow> host \<Rightarrow> string list \<Rightarrow> host" where
  "load_each imp s [] = s"
| "load_each imp s (n # names) =
     load_each imp
       (if n \<in> fst ` set (plugins_found s) then fst (load_plugin imp s n) else s) names"

fun unload_each :: "host \<Rightarrow> string list \<Rightarrow> host" where
  "unload_each s [] = s"
| "unload_each s (n # names) =
     unload_each (if n \<in> fst ` set (plugins_loaded s) then unload_plugin s n else s) names"

definition bulk_set_enabled :: "importer \<Rightarrow> host \<Rightarrow> string list \<Rightarrow> bool \<Rightarrow> host" where
  "bulk_set_enabled imp s names on =
     (case toggle_names on names (read_enabled_plugins s, False) of
        (current, changed) \<Rightarrow>
          if changed then
            (let s1 = write_enabled_plugins s current;
                 s2 = (if on then load_each imp s1 names else unload_each s1 names)
             in if status_bar_visible s2
                then s2\<lparr>events := events s2 @ [StatusBulk on (length names)]\<rparr> else s2)
          else s)"

section \<open>Example values\<close>


definition example_importer :: importer where
  "example_importer p =
     (if p = ''/app/plugins/a.py''
        then Returns \<lparr>register = Some (Returns (PyObject 1)), unregister = Some (Raises ''boom'')\<rparr>
      else if p = ''/app/plugins/Beta.py''
        then Returns \<lparr>register = None, unregister = None\<rparr>
      else if p = ''/app/plugins/bad.py''
        then Returns \<lparr>register = Some (Raises ''register failed''), unregister = None\<rparr>
      else Raises ''SyntaxError'')"

definition example_host :: host where
  "example_host =
     \<lparr>plugins_dir = ''/app/plugins'',
      plugins_found = [(''Alpha'', ''/app/plugins/a.py''), (''Beta'', ''/app/plugins/Beta.py''),
                       (''Broken'', ''/app/plugins/broken.py''), (''Bad'', ''/app/plugins/bad.py'')],
      plugins_loaded = [], qsettings = [], status_bar_visible = True, events = []\<rparr>"



section \<open>Properties of the thumbnail work queue\<close>

subsection \<open>Association lists as dicts\<close>

lemma length_delete_present:
  "distinct (map fst al) \<Longrightarrow> map_of al k = Some v \<Longrightarrow> Suc (length (AList.delete k al)) = length al"
proof (induction al)
  case Nil
  then show ?case by simp
next
  case (Cons p al)
  show ?case
  proof (cases "fst p = k")
    case True
    with Cons.prems have "k \<notin> fst ` set al" by auto
    then have "AList.delete k al = al" by (simp add: delete_id)
    with True show ?thesis by (cases p) (simp add: AList.delete_eq)
  next
    case False
    with Cons show ?thesis by (cases p) (auto simp: AList.delete_eq)
  qed
qed

lemma update_absent:
  "k \<notin> fst ` set al \<Longrightarrow> AList.update k v al = al @ [(k, v)]"
  by (induction al) auto

subsection \<open>The loop of process_thumbnail_queue, one iteration at a time\<close>

lemma process_stop:
  "\<not> (active_thumbnail_threads s < max_concurrent_thumbnails s \<and> thumbnail_queue s \<noteq> []) \<Longrightarrow>
   process_thumbnail_queue s = s"
  by (subst process_thumbnail_queue.simps) simp

lemma process_skip:
  "active_thumbnail_threads s < max_concurrent_thumbnails s \<Longrightarrow>
   thumbnail_queue s = (file_path, item) # rest \<Longrightarrow> in_threads s file_path \<Longrightarrow>
   process_thumbnail_queue s = process_thumbnail_queue (s\<lparr>thumbnail_queue := rest\<rparr>)"
  by (subst process_thumbnail_queue.simps) (simp add: in_threads_def)

lemma process_start:
  "active_thumbnail_threads s < max_concurrent_thumbnails s \<Longrightarrow>
   thumbnail_queue s = (file_path, item) # rest \<Longrightarrow> \<not> in_threads s file_path \<Longrightarrow>
   process_thumbnail_queue s =
     process_thumbnail_queue (start_thread (s\<lparr>thumbnail_queue := rest\<rparr>) file_path item)"
  by (subst process_thumbnail_queue.simps) (simp add: in_threads_def)

lemma process_cases [case_names stop skip start]:
  assumes stop: "\<And>s. \<not> (active_thumbnail_threads s < max_concurrent_thumbnails s \<and>
                         thumbnail_queue s \<noteq> []) \<Longrightarrow> P s"
    and skip: "\<And>s file_path item rest.
                 active_thumbnail_threads s < max_concurrent_thumbnails s \<Longrightarrow>
                 thumbnail_queue s = (file_path, item) # rest \<Longrightarrow> in_threads s file_path \<Longrightarrow>
                 P (s\<lparr>thumbnail_queue := rest\<rparr>) \<Longrightarrow> P s"
    and start: "\<And>s file_path item rest.
                 active_thumbnail_threads s < max_concurrent_thumbnails s \<Longrightarrow>
                 thumbnail_queue s = (file_path, item) # rest \<Longrightarrow> \<not> in_threads s file_path \<Longrightarrow>
                 P (start_thread (s\<lparr>thumbnail_queue := rest\<rparr>) file_path item) \<Longrightarrow> P s"
  shows "P s"
proof (induction s rule: process_thumbnail_queue.induct)
  case (1 s)
  show ?case
  proof (cases "active_thumbnail_threads s < max_concurrent_thumbnails s \<and> thumbnail_queue s \<noteq> []")
    case False
    then show ?thesis by (rule stop)
  next
    case True
    then obtain file_path item rest where q: "thumbnail_queue s = (file_path, item) # rest"
      by (cases "thumbnail_queue s") auto
    show ?thesis
    proof (cases "in_threads s file_path")
      case in_t: True
      then have "in_threads (s\<lparr>thumbnail_queue := rest\<rparr>) file_path"
        by (simp add: in_threads_def)
      from "1.IH"(1) [OF True q refl refl this] show ?thesis
        using True q in_t by (auto intro: skip)
    next
      case not_t: False
      then have "\<not> in_threads (s\<lparr>thumbnail_queue := rest\<rparr>) file_path"
        by (simp add: in_threads_def)
      from "1.IH"(2) [OF True q refl refl this] show ?thesis
        using True q not_t by (auto intro: start)
    qed
  qed
qed

subsection \<open>The invariant of the queue\<close>

lemma started_append: "started (xs @ ys) = started xs @ started ys"
  by (induction xs rule: started.induct) auto

lemma joined_append: "joined (xs @ ys) = joined xs @ joined ys"
  by (induction xs rule: joined.induct) auto

lemma joined_stop_wait:
  "length (joined (concat (map (\<lambda>(file_path, _). [Stop file_path, Wait file_path]) al))) = length al"
  by (induction al) auto

lemma started_stop_wait:
  "started (concat (map (\<lambda>(file_path, _). [Stop file_path, Wait file_path]) al)) = []"
  by (induction al) auto

lemma queue_inv_init: "queue_inv viewer_init"
  by (simp add: queue_inv_def viewer_init_def)

lemma queue_inv_start:
  "queue_inv s \<Longrightarrow> active_thumbnail_threads s < max_concurrent_thumbnails s \<Longrightarrow>
   \<not> in_threads s file_path \<Longrightarrow> queue_inv (start_thread (s\<lparr>thumbnail_queue := rest\<rparr>) file_path item)"
  by (simp add: queue_inv_def start_thread_def in_threads_def update_absent
      started_append joined_append)

lemma queue_inv_process: "queue_inv s \<Longrightarrow> queue_inv (process_thumbnail_queue s)"
proof (induction s rule: process_cases)
  case (stop s)
  then show ?case by (simp add: process_stop)
next
  case (skip s file_path item rest)
  from skip.prems have "queue_inv (s\<lparr>thumbnail_queue := rest\<rparr>)"
    by (simp add: queue_inv_def)
  with skip show ?case by (simp add: process_skip)
next
  case (start s file_path item rest)
  with queue_inv_start show ?case by (simp add: process_start)
qed

lemma queue_inv_release:
  assumes "queue_inv s" and "map_of (thumbnail_threads s) file_path = Some v"
    and "length (joined es) = 1" and "started es = []"
  shows "queue_inv (s\<lparr>thumbnail_threads := AList.delete file_path (thumbnail_threads s),
                     effects := effects s @ es,
                     active_thumbnail_threads := active_thumbnail_threads s - 1\<rparr>)"
proof -
  from assms(1,2) have "Suc (length (AList.delete file_path (thumbnail_threads s))) =
      length (thumbnail_threads s)"
    by (simp add: queue_inv_def length_delete_present)
  with assms show ?thesis
    by (simp add: queue_inv_def distinct_delete started_append joined_append)
qed

lemma queue_inv_enqueue:
  "queue_inv s \<Longrightarrow> queue_inv (queue_thumbnail_generation s file_path item)"
proof -
  assume inv: "queue_inv s"
  then have "queue_inv (s\<lparr>thumbnail_queue := thumbnail_queue s @ [(file_path, item)]\<rparr>)"
    by (simp add: queue_inv_def)
  with inv show ?thesis
    by (simp add: queue_thumbnail_generation_def queue_inv_process)
qed

lemma queue_inv_add_files: "queue_inv s \<Longrightarrow> queue_inv (add_files_to_list s files)"
proof (induction files arbitrary: s)
  case Nil
  then show ?case by simp
next
  case (Cons file_path files)
  from Cons.prems have "queue_inv (s\<lparr>video_files := video_files s @ [file_path]\<rparr>)"
    by (simp add: queue_inv_def)
  then show ?case using Cons by (simp add: queue_inv_enqueue)
qed

lemma queue_inv_generated: "queue_inv s \<Longrightarrow> queue_inv (on_thumbnail_generated s file_path pm)"
  by (auto simp: on_thumbnail_generated_def split: option.splits
      intro!: queue_inv_process queue_inv_release)

lemma queue_inv_error: "queue_inv s \<Longrightarrow> queue_inv (on_thumbnail_error s file_path error)"
  by (auto simp: on_thumbnail_error_def split: option.splits
      intro!: queue_inv_process queue_inv_release)

lemma queue_inv_clear: "queue_inv s \<Longrightarrow> queue_inv (clear_file_list s)"
  by (simp add: queue_inv_def clear_file_list_def started_append joined_append
      joined_stop_wait started_stop_wait)

lemma queue_inv_remove_one: "queue_inv s \<Longrightarrow> queue_inv (remove_selected_file s file_path)"
proof -
  assume inv: "queue_inv s"
  define s1 where "s1 = (if file_path \<in> set (video_files s)
                then s\<lparr>video_files := remove1 file_path (video_files s)\<rparr> else s)"
  from inv have inv1: "queue_inv s1"
    by (simp add: queue_inv_def s1_def)
  show ?thesis
  proof (cases "map_of (thumbnail_threads s1) file_path")
    case None
    with inv1 show ?thesis
      by (simp add: remove_selected_file_def s1_def [symmetric])
  next
    case (Some v)
    have "queue_inv (s1\<lparr>thumbnail_threads := AList.delete file_path (thumbnail_threads s1),
                effects := effects s1 @ [Stop file_path, Wait file_path],
                active_thumbnail_threads := active_thumbnail_threads s1 - 1\<rparr>)"
      by (rule queue_inv_release [OF inv1 Some]) simp_all
    with Some show ?thesis
      by (cases v) (simp add: remove_selected_file_def s1_def [symmetric] queue_inv_process)
  qed
qed

lemma queue_inv_remove: "queue_inv s \<Longrightarrow> queue_inv (remove_selected_files s selected)"
  by (induction selected arbitrary: s) (simp_all add: queue_inv_remove_one)

lemma queue_inv_step: "queue_inv s \<Longrightarrow> queue_inv (step s op)"
  by (cases op)
    (simp_all add: queue_inv_enqueue queue_inv_add_files queue_inv_generated queue_inv_error
      queue_inv_remove queue_inv_clear queue_inv_process)

lemma queue_inv_run: "queue_inv s \<Longrightarrow> queue_inv (run s ops)"
  unfolding run_def by (induction ops arbitrary: s) (simp_all add: queue_inv_step)

subsection \<open>The counter and the ceiling\<close>

lemma grow_key:
  assumes "distinct (map fst a)" and "distinct (map fst b)" and "length a < length b"
  shows "\<exists>k. k \<notin> fst ` set a \<and> k \<in> fst ` set b"
proof (rule ccontr)
  assume "\<not> ?thesis"
  then have "set (map fst b) \<subseteq> set (map fst a)" by auto
  then have "card (set (map fst b)) \<le> card (set (map fst a))"
    by (intro card_mono) simp_all
  moreover have "card (set (map fst a)) = length a" "card (set (map fst b)) = length b"
    using assms by (simp_all add: distinct_card del: set_map)
  ultimately show False using assms(3) by simp
qed

lemma process_active_mono:
  "active_thumbnail_threads s \<le> active_thumbnail_threads (process_thumbnail_queue s)"
proof (induction s rule: process_cases)
  case (stop s)
  then show ?case by (simp add: process_stop)
next
  case (skip s file_path item rest)
  then show ?case by (simp add: process_skip)
next
  case (start s file_path item rest)
  then show ?case by (simp add: process_start start_thread_def)
qed

lemma enqueue_active_mono:
  "active_thumbnail_threads s \<le> active_thumbnail_threads (queue_thumbnail_generation s file_path item)"
  using process_active_mono [of "s\<lparr>thumbnail_queue := thumbnail_queue s @ [(file_path, item)]\<rparr>"]
  by (simp add: queue_thumbnail_generation_def)

lemmas queue_eval = run_def queue_thumbnail_generation_def on_thumbnail_generated_def
  on_thumbnail_error_def clear_file_list_def remove_selected_file_def start_thread_def
  in_threads_def viewer_init_def process_thumbnail_queue.simps Let_def

text \<open>
  C1. From the state of \<^verbatim>\<open>__init__\<close>, after any sequence of operations on the queue
  (enqueue, adding files, completion, failure, removal, clearing, admission) the counter
  \<^verbatim>\<open>active_thumbnail_threads\<close> is at most the ceiling \<^verbatim>\<open>max_concurrent_thumbnails\<close>, which is 3.
  The counter is the number of threads started less the number of threads joined. Over one
  further operation it rises only if a file path has entered the table of active threads,
  and falls only if a file path that was in the table has left it; admission and enqueue
  alone never lower it.
\<close>

theorem active_count_bounded:
  "s = run viewer_init ops \<Longrightarrow> s' = step s op \<Longrightarrow>
     max_concurrent_thumbnails s = 3 \<and>
     active_thumbnail_threads s \<le> 3 \<and> active_thumbnail_threads s' \<le> 3 \<and>
     active_thumbnail_threads s =
       int (length (started (effects s))) - int (length (joined (effects s))) \<and>
     (active_thumbnail_threads s < active_thumbnail_threads s' \<longrightarrow>
        (\<exists>file_path. \<not> in_threads s file_path \<and> in_threads s' file_path)) \<and>
     (active_thumbnail_threads s' < active_thumbnail_threads s \<longrightarrow>
        (\<exists>file_path. in_threads s file_path \<and> \<not> in_threads s' file_path)) \<and>
     active_thumbnail_threads s \<le> active_thumbnail_threads (process_thumbnail_queue s) \<and>
     active_thumbnail_threads s
       \<le> active_thumbnail_threads (queue_thumbnail_generation s file_path item)"
proof -
  assume s: "s = run viewer_init ops" and s': "s' = step s op"
  have inv: "queue_inv s" unfolding s by (rule queue_inv_run [OF queue_inv_init])
  then have inv': "queue_inv s'" unfolding s' by (rule queue_inv_step)
  have up: "\<exists>file_path. \<not> in_threads s file_path \<and> in_threads s' file_path"
    if "active_thumbnail_threads s < active_thumbnail_threads s'"
    using grow_key [of "thumbnail_threads s" "thumbnail_threads s'"] inv inv' that
    by (simp add: queue_inv_def in_threads_def)
  have down: "\<exists>file_path. in_threads s file_path \<and> \<not> in_threads s' file_path"
    if "active_thumbnail_threads s' < active_thumbnail_threads s"
    using grow_key [of "thumbnail_threads s'" "thumbnail_threads s"] inv inv' that
    by (simp add: queue_inv_def in_threads_def) blast
  have "max_concurrent_thumbnails s = 3" "active_thumbnail_threads s \<le> 3"
    "active_thumbnail_threads s' \<le> 3"
    "active_thumbnail_threads s =
       int (length (started (effects s))) - int (length (joined (effects s)))"
    using inv inv' by (simp_all add: queue_inv_def)
  with up down process_active_mono [of s] enqueue_active_mono [of s file_path item]
  show ?thesis by blast
qed

theorem active_count_bounded_witness:
  "(let s = run viewer_init []; s' = step s (Enqueue ''A'' (QListWidgetItem ''A''))
    in active_thumbnail_threads s < active_thumbnail_threads s' \<and>
       active_thumbnail_threads s' \<le> 3 \<and>
       (\<exists>file_path. \<not> in_threads s file_path \<and> in_threads s' file_path)) \<and>
   (let s = run viewer_init [Enqueue ''A'' (QListWidgetItem ''A'')]; s' = step s (Generated ''A'' 0)
    in active_thumbnail_threads s' < active_thumbnail_threads s \<and>
       (\<exists>file_path. in_threads s file_path \<and> \<not> in_threads s' file_path))"
proof -
  let ?a = "Enqueue ''A'' (QListWidgetItem ''A'')"
  have up: "active_thumbnail_threads (run viewer_init []) <
            active_thumbnail_threads (step (run viewer_init []) ?a)"
    by (simp add: queue_eval)
  have down: "active_thumbnail_threads (step (run viewer_init [?a]) (Generated ''A'' 0)) <
              active_thumbnail_threads (run viewer_init [?a])"
    by (simp add: queue_eval)
  from up down
    active_count_bounded [OF refl refl, of "[]" ?a]
    active_count_bounded [OF refl refl, of "[?a]" "Generated ''A'' 0"]
  show ?thesis unfolding Let_def by blast
qed


subsection \<open>Admission order\<close>

lemma process_keeps_threads:
  "in_threads s file_path \<Longrightarrow> in_threads (process_thumbnail_queue s) file_path"
proof (induction s rule: process_cases)
  case (stop s)
  then show ?case by (simp add: process_stop)
next
  case (skip s p item rest)
  then show ?case by (simp add: process_skip in_threads_def)
next
  case (start s p item rest)
  then show ?case by (simp add: process_start in_threads_def start_thread_def update_absent)
qed

lemma process_round:
  "\<exists>popped new.
     thumbnail_queue s = popped @ thumbnail_queue (process_thumbnail_queue s) \<and>
     effects (process_thumbnail_queue s) = effects s @ map Start new \<and>
     subseq new (map fst popped) \<and>
     set (map fst popped) \<subseteq> {p. in_threads (process_thumbnail_queue s) p} \<and>
     (thumbnail_queue (process_thumbnail_queue s) = [] \<or>
      max_concurrent_thumbnails s \<le> active_thumbnail_threads (process_thumbnail_queue s))"
proof (induction s rule: process_cases)
  case (stop s)
  have "thumbnail_queue s = [] @ thumbnail_queue s \<and> effects s = effects s @ map Start [] \<and>
      subseq [] (map fst ([] :: (string \<times> item) list))"
    by simp
  with stop show ?case
    apply (simp add: process_stop)
    by (metis append_Nil list.simps(8) subseq_order.order_refl empty_iff empty_set subsetI not_le)
next
  case (skip s p item rest)
  let ?s1 = "s\<lparr>thumbnail_queue := rest\<rparr>"
  from skip.IH obtain popped new where
    q: "rest = popped @ thumbnail_queue (process_thumbnail_queue ?s1)" and
    e: "effects (process_thumbnail_queue ?s1) = effects s @ map Start new" and
    sub: "subseq new (map fst popped)" and
    act: "set (map fst popped) \<subseteq> {p. in_threads (process_thumbnail_queue ?s1) p}" and
    fin: "thumbnail_queue (process_thumbnail_queue ?s1) = [] \<or>
      max_concurrent_thumbnails s \<le> active_thumbnail_threads (process_thumbnail_queue ?s1)"
    by auto
  have eq: "process_thumbnail_queue s = process_thumbnail_queue ?s1"
    using skip by (simp add: process_skip)
  have "in_threads ?s1 p" using skip by (simp add: in_threads_def)
  then have inp: "in_threads (process_thumbnail_queue ?s1) p"
    by (rule process_keeps_threads)
  have "thumbnail_queue s = ((p, item) # popped) @ thumbnail_queue (process_thumbnail_queue s)"
    using skip q eq by simp
  moreover have "effects (process_thumbnail_queue s) = effects s @ map Start new"
    using e eq by simp
  moreover have "subseq new (map fst ((p, item) # popped))"
    using sub by (simp add: list_emb_Cons)
  moreover have "set (map fst ((p, item) # popped))
      \<subseteq> {p. in_threads (process_thumbnail_queue s) p}"
    using act inp eq by simp
  ultimately show ?case using fin eq by metis
next
  case (start s p item rest)
  let ?s1 = "start_thread (s\<lparr>thumbnail_queue := rest\<rparr>) p item"
  from start.IH obtain popped new where
    q: "thumbnail_queue ?s1 = popped @ thumbnail_queue (process_thumbnail_queue ?s1)" and
    e: "effects (process_thumbnail_queue ?s1) = effects ?s1 @ map Start new" and
    sub: "subseq new (map fst popped)" and
    act: "set (map fst popped) \<subseteq> {p. in_threads (process_thumbnail_queue ?s1) p}" and
    fin: "thumbnail_queue (process_thumbnail_queue ?s1) = [] \<or>
      max_concurrent_thumbnails ?s1 \<le> active_thumbnail_threads (process_thumbnail_queue ?s1)"
    by auto
  have eq: "process_thumbnail_queue s = process_thumbnail_queue ?s1"
    using start by (simp add: process_start)
  have "in_threads ?s1 p" by (simp add: in_threads_def start_thread_def dom_update)
  then have inp: "in_threads (process_thumbnail_queue ?s1) p"
    by (rule process_keeps_threads)
  have "thumbnail_queue s = ((p, item) # popped) @ thumbnail_queue (process_thumbnail_queue s)"
    using start q eq by (simp add: start_thread_def)
  moreover have "effects (process_thumbnail_queue s) = effects s @ map Start (p # new)"
    using e eq by (simp add: start_thread_def)
  moreover have "subseq (p # new) (map fst ((p, item) # popped))"
    using sub by simp
  moreover have "set (map fst ((p, item) # popped))
      \<subseteq> {p. in_threads (process_thumbnail_queue s) p}"
    using act inp eq by simp
  moreover have "thumbnail_queue (process_thumbnail_queue s) = [] \<or>
      max_concurrent_thumbnails s \<le> active_thumbnail_threads (process_thumbnail_queue s)"
    using fin eq by (simp add: start_thread_def)
  ultimately show ?case by metis
qed

lemma completion_admits_head:
  assumes t: "map_of (thumbnail_threads s) a = Some (thread, item)"
    and full: "active_thumbnail_threads s = max_concurrent_thumbnails s"
    and q: "thumbnail_queue s = (c, item_c) # rest"
    and c: "\<not> in_threads s c \<or> c = a"
  shows "on_thumbnail_generated s a pm =
           s\<lparr>thumbnail_threads :=
               AList.delete a (thumbnail_threads s) @ [(c, ThumbnailGeneratorThread c, item_c)],
             effects := effects s @ [SetIcon item pm, Wait a, Start c],
             active_thumbnail_threads := active_thumbnail_threads s,
             thumbnail_queue := rest\<rparr>"
proof -
  let ?s1 = "s\<lparr>thumbnail_threads := AList.delete a (thumbnail_threads s),
               effects := effects s @ [SetIcon item pm, Wait a],
               active_thumbnail_threads := active_thumbnail_threads s - 1\<rparr>"
  have notin: "\<not> in_threads ?s1 c"
    using c by (auto simp: in_threads_def delete_notin_dom AList.delete_eq)
  have "process_thumbnail_queue ?s1 =
        process_thumbnail_queue (start_thread (?s1\<lparr>thumbnail_queue := rest\<rparr>) c item_c)"
    using full q notin by (intro process_start) simp_all
  also have "\<dots> = start_thread (?s1\<lparr>thumbnail_queue := rest\<rparr>) c item_c"
    using full by (intro process_stop) (simp add: start_thread_def)
  finally show ?thesis
    using t notin by (simp add: on_thumbnail_generated_def start_thread_def update_absent in_threads_def)
qed

text \<open>
  C2. Pending thumbnail jobs are admitted in the order they were enqueued. An admission
  round pops a head segment of the pending sequence and leaves the rest as it was; the
  threads it starts are started in the order of that segment; every popped entry is in
  the table of active threads afterwards (an entry whose target was already there starts
  nothing); the round ends only with the pending sequence empty or the ceiling reached.
  Enqueuing appends at the tail before the round. When the ceiling is reached and the job
  of \<open>a\<close> completes, exactly the head \<open>c\<close> of the pending sequence is started and the rest
  stays pending.
\<close>

theorem fifo_admission:
  "(\<exists>popped new.
      thumbnail_queue s = popped @ thumbnail_queue (process_thumbnail_queue s) \<and>
      effects (process_thumbnail_queue s) = effects s @ map Start new \<and>
      subseq new (map fst popped) \<and>
      set (map fst popped) \<subseteq> {p. in_threads (process_thumbnail_queue s) p} \<and>
      (thumbnail_queue (process_thumbnail_queue s) = [] \<or>
       max_concurrent_thumbnails s \<le> active_thumbnail_threads (process_thumbnail_queue s))) \<and>
   (\<not> in_threads s file_path \<longrightarrow>
      queue_thumbnail_generation s file_path item' =
        process_thumbnail_queue (s\<lparr>thumbnail_queue := thumbnail_queue s @ [(file_path, item')]\<rparr>)) \<and>
   (map_of (thumbnail_threads s) a = Some (thread, item) \<and>
    active_thumbnail_threads s = max_concurrent_thumbnails s \<and>
    thumbnail_queue s = (c, item_c) # rest \<and> (\<not> in_threads s c \<or> c = a) \<longrightarrow>
      on_thumbnail_generated s a pm =
        s\<lparr>thumbnail_threads :=
            AList.delete a (thumbnail_threads s) @ [(c, ThumbnailGeneratorThread c, item_c)],
          effects := effects s @ [SetIcon item pm, Wait a, Start c],
          active_thumbnail_threads := active_thumbnail_threads s,
          thumbnail_queue := rest\<rparr>)"
  using process_round [of s] completion_admits_head [of s a thread item c item_c rest pm]
  by (simp add: queue_thumbnail_generation_def)

lemma ceiling_reached_after_b: "run viewer_init [AddFiles [''X'', ''A'', ''B'', ''C'', ''D'']] =
  \<lparr>video_files = [''X'', ''A'', ''B'', ''C'', ''D''],
   thumbnail_threads = [(''X'', ThumbnailGeneratorThread ''X'', QListWidgetItem ''X''),
                        (''A'', ThumbnailGeneratorThread ''A'', QListWidgetItem ''A''),
                        (''B'', ThumbnailGeneratorThread ''B'', QListWidgetItem ''B'')],
   thumbnail_queue = [(''C'', QListWidgetItem ''C''), (''D'', QListWidgetItem ''D'')],
   max_concurrent_thumbnails = 3, active_thumbnail_threads = 3,
   effects = [Start ''X'', Start ''A'', Start ''B'']\<rparr>"
  by (simp add: queue_eval)


theorem fifo_admission_witness:
  "map fst (thumbnail_threads (run viewer_init [AddFiles [''X'', ''A'', ''B'', ''C'', ''D'']]))
     = [''X'', ''A'', ''B''] \<and>
   map fst (thumbnail_queue (run viewer_init [AddFiles [''X'', ''A'', ''B'', ''C'', ''D'']]))
     = [''C'', ''D''] \<and>
   map fst (thumbnail_threads
      (run viewer_init [AddFiles [''X'', ''A'', ''B'', ''C'', ''D''], Generated ''A'' 0]))
     = [''X'', ''B'', ''C''] \<and>
   map fst (thumbnail_queue
      (run viewer_init [AddFiles [''X'', ''A'', ''B'', ''C'', ''D''], Generated ''A'' 0]))
     = [''D''] \<and>
   map fst (thumbnail_threads
      (run viewer_init [AddFiles [''X'', ''A'', ''B'', ''C'', ''D''], Generated ''A'' 0,
                        Generated ''B'' 0]))
     = [''X'', ''C'', ''D''] \<and>
   started (effects
      (run viewer_init [AddFiles [''X'', ''A'', ''B'', ''C'', ''D''], Generated ''A'' 0,
                        Generated ''B'' 0]))
     = [''X'', ''A'', ''B'', ''C'', ''D'']"
proof -
  let ?s = "run viewer_init [AddFiles [''X'', ''A'', ''B'', ''C'', ''D'']]"
  let ?s1 = "on_thumbnail_generated ?s ''A'' 0"
  have h: "map_of (thumbnail_threads ?s) ''A'' =
             Some (ThumbnailGeneratorThread ''A'', QListWidgetItem ''A'') \<and>
           active_thumbnail_threads ?s = max_concurrent_thumbnails ?s \<and>
           thumbnail_queue ?s = (''C'', QListWidgetItem ''C'') # [(''D'', QListWidgetItem ''D'')] \<and>
           (\<not> in_threads ?s ''C'' \<or> ''C'' = ''A'')"
    by (simp add: ceiling_reached_after_b in_threads_def)
  from fifo_admission [of ?s _ _ "''A''" "ThumbnailGeneratorThread ''A''" "QListWidgetItem ''A''"
      "''C''" "QListWidgetItem ''C''" "[(''D'', QListWidgetItem ''D'')]" 0] h
  have s1: "?s1 =
      ?s\<lparr>thumbnail_threads := AList.delete ''A'' (thumbnail_threads ?s)
                 @ [(''C'', ThumbnailGeneratorThread ''C'', QListWidgetItem ''C'')],
         effects := effects ?s @ [SetIcon (QListWidgetItem ''A'') 0, Wait ''A'', Start ''C''],
         active_thumbnail_threads := active_thumbnail_threads ?s,
         thumbnail_queue := [(''D'', QListWidgetItem ''D'')]\<rparr>"
    by blast
  have r1: "run viewer_init [AddFiles [''X'', ''A'', ''B'', ''C'', ''D''], Generated ''A'' 0] = ?s1"
    by (simp add: run_def)
  have r2: "run viewer_init [AddFiles [''X'', ''A'', ''B'', ''C'', ''D''], Generated ''A'' 0,
                        Generated ''B'' 0] = on_thumbnail_generated ?s1 ''B'' 0"
    by (simp add: run_def)
  show ?thesis
    unfolding r1 r2 s1 unfolding ceiling_reached_after_b
    by (simp add: on_thumbnail_generated_def start_thread_def in_threads_def
        process_thumbnail_queue.simps AList.delete_eq)
qed

subsection \<open>Duplicates and removal\<close>





text \<open>
  C4 evaluated on the code. With three jobs active and \<open>D\<close> pending, removing \<open>D\<close> from the
  list takes it out of \<^verbatim>\<open>video_files\<close> but leaves its entry in the pending queue, and the
  next completion starts a thread for \<open>D\<close>. Clearing the list empties the pending queue.
\<close>

theorem removal_leaves_pending_job:
  "map fst (thumbnail_queue (run viewer_init [AddFiles [''A'', ''B'', ''C'', ''D'']])) = [''D''] \<and>
   started (effects (run viewer_init [AddFiles [''A'', ''B'', ''C'', ''D'']]))
     = [''A'', ''B'', ''C''] \<and>
   video_files (run viewer_init [AddFiles [''A'', ''B'', ''C'', ''D''], RemoveSelected [''D'']])
     = [''A'', ''B'', ''C''] \<and>
   map fst (thumbnail_queue
      (run viewer_init [AddFiles [''A'', ''B'', ''C'', ''D''], RemoveSelected [''D'']]))
     = [''D''] \<and>
   started (effects
      (run viewer_init [AddFiles [''A'', ''B'', ''C'', ''D''], RemoveSelected [''D''],
                        Generated ''A'' 0]))
     = [''A'', ''B'', ''C'', ''D''] \<and>
   thumbnail_queue
      (run viewer_init [AddFiles [''A'', ''B'', ''C'', ''D''], ClearList]) = []"
  by (simp add: queue_eval)

section \<open>Properties of the plugin lifecycle\<close>

lemma load_done_loaded:
  "load_done s name m h = (s1, ok) \<Longrightarrow>
   ok \<and> name \<in> fst ` set (plugins_loaded s1) \<and> events s1 = events s @ (if status_bar_visible s then [StatusLoaded name] else []) \<and>
   plugins_loaded s1 = AList.update name \<lparr>module = m, handle = h\<rparr> (plugins_loaded s)"
  by (auto simp: load_done_def Let_def dom_update split: if_splits)

lemma load_plugin_again:
  "name \<in> fst ` set (plugins_loaded s) \<Longrightarrow> load_plugin imp s name = (s, True)"
  by (simp add: load_plugin_def)

lemma load_plugin_success:
  assumes "load_plugin imp s name = (s1, True)"
  shows "name \<in> fst ` set (plugins_loaded s1)"
  using assms
  by (auto simp: load_plugin_def load_failed_def Let_def
      split: if_splits option.splits outcome.splits dest!: load_done_loaded)

lemma count_status [simp]:
  "count_list (if b then [StatusLoaded name] else []) (RegisterCalled name) = 0"
  by simp

lemma load_plugin_fresh:
  assumes "load_plugin imp s name = (s1, True)" and "name \<notin> fst ` set (plugins_loaded s)"
  shows "\<exists>path m. map_of (plugins_found s) name = Some path \<and> imp path = Returns m \<and>
           (register m = None \<or> (\<exists>h. register m = Some (Returns h))) \<and>
           count_list (events s1) (RegisterCalled name) =
             count_list (events s) (RegisterCalled name) + (if register m = None then 0 else 1)"
  using assms
  by (auto simp: load_plugin_def load_failed_def Let_def
      split: if_splits option.splits outcome.splits dest!: load_done_loaded)

lemma example_load_alpha:
  "load_plugin example_importer example_host ''Alpha'' =
     (example_host\<lparr>plugins_loaded :=
          [(''Alpha'', \<lparr>module = \<lparr>register = Some (Returns (PyObject 1)),
                                     unregister = Some (Raises ''boom'')\<rparr>,
                         handle = PyObject 1\<rparr>)],
        events := [RegisterCalled ''Alpha'', StatusLoaded ''Alpha'']\<rparr>, True)"
  by (simp add: load_plugin_def load_done_def example_host_def example_importer_def)

text \<open>
  C5. Loading is idempotent on a loaded plugin. If \<^verbatim>\<open>load_plugin(name)\<close> returns \<^verbatim>\<open>True\<close>, the
  plugin is in \<^verbatim>\<open>plugins_loaded\<close>, and a second call returns \<^verbatim>\<open>True\<close> and leaves the viewer as
  the first call left it. If the plugin was not loaded before the first call, the two
  calls together call its \<^verbatim>\<open>register\<close> once when the module has one, and never otherwise.
\<close>

theorem load_plugin_idempotent:
  "load_plugin imp s name = (s1, True) \<Longrightarrow>
     load_plugin imp s1 name = (s1, True) \<and>
     name \<in> fst ` set (plugins_loaded s1) \<and>
     (name \<notin> fst ` set (plugins_loaded s) \<longrightarrow>
        (\<exists>path m. map_of (plugins_found s) name = Some path \<and> imp path = Returns m \<and>
           count_list (events (fst (load_plugin imp s1 name))) (RegisterCalled name) =
             count_list (events s) (RegisterCalled name) + (if register m = None then 0 else 1)))"
proof -
  assume l: "load_plugin imp s name = (s1, True)"
  then have in1: "name \<in> fst ` set (plugins_loaded s1)" by (rule load_plugin_success)
  then have again: "load_plugin imp s1 name = (s1, True)" by (rule load_plugin_again)
  show ?thesis
  proof (cases "name \<in> fst ` set (plugins_loaded s)")
    case True
    with in1 again show ?thesis by simp
  next
    case False
    from load_plugin_fresh [OF l False] obtain path m where
      "map_of (plugins_found s) name = Some path" "imp path = Returns m"
      "count_list (events s1) (RegisterCalled name) =
             count_list (events s) (RegisterCalled name) + (if register m = None then 0 else 1)"
      by blast
    with in1 again show ?thesis by (simp only: fst_conv) blast
  qed
qed

theorem load_plugin_idempotent_witness:
  "snd (load_plugin example_importer example_host ''Alpha'') \<and>
   load_plugin example_importer (fst (load_plugin example_importer example_host ''Alpha'')) ''Alpha''
     = (fst (load_plugin example_importer example_host ''Alpha''), True) \<and>
   count_list
     (events (fst (load_plugin example_importer
                     (fst (load_plugin example_importer example_host ''Alpha'')) ''Alpha'')))
     (RegisterCalled ''Alpha'') = 1"
proof -
  let ?s1 = "fst (load_plugin example_importer example_host ''Alpha'')"
  have l: "load_plugin example_importer example_host ''Alpha'' = (?s1, True)"
    by (simp add: example_load_alpha)
  have fresh: "''Alpha'' \<notin> fst ` set (plugins_loaded example_host)"
    by (simp add: example_host_def)
  from load_plugin_idempotent [OF l] fresh
  have again: "load_plugin example_importer ?s1 ''Alpha'' = (?s1, True)" by blast
  have c: "count_list (events ?s1) (RegisterCalled ''Alpha'') = 1"
    by (simp add: example_load_alpha)
  have ok: "snd (load_plugin example_importer example_host ''Alpha'')"
    by (simp add: example_load_alpha)
  from ok again c show ?thesis by (simp only: fst_conv simp_thms)
qed

text \<open>
  C6. For a plugin that is found and not loaded: if importing its file raises, or its
  \<^verbatim>\<open>register\<close> raises, \<^verbatim>\<open>load_plugin\<close> returns \<^verbatim>\<open>False\<close>, leaves \<^verbatim>\<open>plugins_loaded\<close> and
  \<^verbatim>\<open>plugins_found\<close> as they were, so that the plugin is not loaded and no module is kept,
  and shows the error in a message box. Whenever \<^verbatim>\<open>load_plugin\<close> returns \<^verbatim>\<open>False\<close>,
  \<^verbatim>\<open>plugins_loaded\<close> is unchanged.
\<close>

theorem load_plugin_failure_keeps_tables:
  "(name \<notin> fst ` set (plugins_loaded s) \<and> map_of (plugins_found s) name = Some path \<and>
    (imp path = Raises e \<or> (imp path = Returns m \<and> register m = Some (Raises e))) \<longrightarrow>
      snd (load_plugin imp s name) = False \<and>
      plugins_loaded (fst (load_plugin imp s name)) = plugins_loaded s \<and>
      plugins_found (fst (load_plugin imp s name)) = plugins_found s \<and>
      name \<notin> fst ` set (plugins_loaded (fst (load_plugin imp s name))) \<and>
      CriticalBox name e \<in> set (events (fst (load_plugin imp s name)))) \<and>
   (snd (load_plugin imp s name) = False \<longrightarrow>
      plugins_loaded (fst (load_plugin imp s name)) = plugins_loaded s)"
  by (auto simp: load_plugin_def load_failed_def load_done_def Let_def
      split: option.splits outcome.splits)

theorem load_plugin_failure_keeps_tables_witness:
  "load_plugin example_importer example_host ''Broken'' =
     (example_host\<lparr>events := [TracebackPrinted ''SyntaxError'',
                                 CriticalBox ''Broken'' ''SyntaxError'']\<rparr>, False) \<and>
   plugins_loaded (fst (load_plugin example_importer example_host ''Broken'')) = [] \<and>
   \<not> snd (load_plugin example_importer example_host ''Bad'') \<and>
   plugins_loaded (fst (load_plugin example_importer example_host ''Bad'')) = [] \<and>
   events (fst (load_plugin example_importer example_host ''Bad'')) =
     [RegisterCalled ''Bad'', TracebackPrinted ''register failed'',
      CriticalBox ''Bad'' ''register failed'']"
proof -
  have broken: "''Broken'' \<notin> fst ` set (plugins_loaded example_host) \<and>
      map_of (plugins_found example_host) ''Broken'' = Some ''/app/plugins/broken.py'' \<and>
      (example_importer ''/app/plugins/broken.py'' = Raises ''SyntaxError'' \<or>
       (example_importer ''/app/plugins/broken.py'' = Returns \<lparr>register = None, unregister = None\<rparr> \<and>
        register \<lparr>register = None, unregister = None\<rparr> = Some (Raises ''SyntaxError'')))"
    by (simp add: example_host_def example_importer_def)
  have bad: "''Bad'' \<notin> fst ` set (plugins_loaded example_host) \<and>
      map_of (plugins_found example_host) ''Bad'' = Some ''/app/plugins/bad.py'' \<and>
      (example_importer ''/app/plugins/bad.py'' = Raises ''register failed'' \<or>
       (example_importer ''/app/plugins/bad.py'' =
          Returns \<lparr>register = Some (Raises ''register failed''), unregister = None\<rparr> \<and>
        register \<lparr>register = Some (Raises ''register failed''), unregister = None\<rparr>
          = Some (Raises ''register failed'')))"
    by (simp add: example_host_def example_importer_def)
  have e: "plugins_loaded example_host = []" by (simp add: example_host_def)
  from broken load_plugin_failure_keeps_tables
    [of "''Broken''" example_host "''/app/plugins/broken.py''" example_importer "''SyntaxError''"
      "\<lparr>register = None, unregister = None\<rparr>"]
  have 1: "snd (load_plugin example_importer example_host ''Broken'') = False \<and>
      plugins_loaded (fst (load_plugin example_importer example_host ''Broken'')) =
        plugins_loaded example_host"
    by blast
  from bad load_plugin_failure_keeps_tables
    [of "''Bad''" example_host "''/app/plugins/bad.py''" example_importer "''register failed''"
      "\<lparr>register = Some (Raises ''register failed''), unregister = None\<rparr>"]
  have 2: "snd (load_plugin example_importer example_host ''Bad'') = False \<and>
      plugins_loaded (fst (load_plugin example_importer example_host ''Bad'')) =
        plugins_loaded example_host"
    by blast
  have 3: "load_plugin example_importer example_host ''Broken'' =
     (example_host\<lparr>events := [TracebackPrinted ''SyntaxError'',
                                 CriticalBox ''Broken'' ''SyntaxError'']\<rparr>, False)"
    by (simp add: load_plugin_def load_failed_def example_host_def example_importer_def)
  have 4: "events (fst (load_plugin example_importer example_host ''Bad'')) =
     [RegisterCalled ''Bad'', TracebackPrinted ''register failed'',
      CriticalBox ''Bad'' ''register failed'']"
    by (simp add: load_plugin_def load_failed_def example_host_def example_importer_def)
  from 1 2 3 4 e show ?thesis by simp
qed

text \<open>
  C7. After \<^verbatim>\<open>unload_plugin(name)\<close> the plugin is not in \<^verbatim>\<open>plugins_loaded\<close>, whatever its
  \<^verbatim>\<open>unregister\<close> does. Unloading a plugin that is not loaded changes nothing. When
  \<^verbatim>\<open>unregister\<close> raises, the entry is removed all the same, the call and the printed
  traceback being the only other effects.
\<close>

theorem unload_plugin_always_removes:
  "name \<notin> fst ` set (plugins_loaded (unload_plugin s name)) \<and>
   (name \<notin> fst ` set (plugins_loaded s) \<longrightarrow> unload_plugin s name = s) \<and>
   (map_of (plugins_loaded s) name = Some item \<and> unregister (module item) = Some (Raises e) \<longrightarrow>
      unload_plugin s name =
        s\<lparr>plugins_loaded := AList.delete name (plugins_loaded s),
          events := events s @ [UnregisterCalled name (handle item), TracebackPrinted e]\<rparr>)"
proof -
  have 1: "name \<notin> fst ` set (plugins_loaded (unload_plugin s name))"
  proof (cases "map_of (plugins_loaded s) name")
    case None
    then have "name \<notin> fst ` set (plugins_loaded s)" by (simp add: map_of_eq_None_iff)
    with None show ?thesis by (simp add: unload_plugin_def)
  next
    case (Some item)
    then show ?thesis
      by (auto simp: unload_plugin_def Let_def delete_notin_dom split: option.splits outcome.splits)
  qed
  have 2: "name \<notin> fst ` set (plugins_loaded s) \<Longrightarrow> unload_plugin s name = s"
    by (simp add: unload_plugin_def map_of_eq_None_iff [symmetric])
  have 3: "map_of (plugins_loaded s) name = Some item \<Longrightarrow>
      unregister (module item) = Some (Raises e) \<Longrightarrow>
      unload_plugin s name =
        s\<lparr>plugins_loaded := AList.delete name (plugins_loaded s),
          events := events s @ [UnregisterCalled name (handle item), TracebackPrinted e]\<rparr>"
    by (simp add: unload_plugin_def Let_def)
  from 1 2 3 show ?thesis by blast
qed


theorem unload_plugin_always_removes_witness:
  "unload_plugin example_host ''Alpha'' = example_host \<and>
   unload_plugin (fst (load_plugin example_importer example_host ''Alpha'')) ''Alpha'' =
     example_host\<lparr>events := [RegisterCalled ''Alpha'', StatusLoaded ''Alpha'',
                                 UnregisterCalled ''Alpha'' (PyObject 1), TracebackPrinted ''boom'']\<rparr> \<and>
   ''Alpha'' \<notin> fst ` set (plugins_loaded
       (unload_plugin (fst (load_plugin example_importer example_host ''Alpha'')) ''Alpha''))"
proof -
  let ?m = "\<lparr>register = Some (Returns (PyObject 1)), unregister = Some (Raises ''boom'')\<rparr>"
  let ?item = "\<lparr>module = ?m, handle = PyObject 1\<rparr>"
  let ?s1 = "fst (load_plugin example_importer example_host ''Alpha'')"
  have a: "''Alpha'' \<notin> fst ` set (plugins_loaded example_host)"
    by (simp add: example_host_def)
  have b: "map_of (plugins_loaded ?s1) ''Alpha'' = Some ?item \<and>
      unregister (module ?item) = Some (Raises ''boom'')"
    by (simp add: example_load_alpha)
  from a unload_plugin_always_removes [of "''Alpha''" example_host]
  have 1: "unload_plugin example_host ''Alpha'' = example_host" by blast
  from b unload_plugin_always_removes [of "''Alpha''" ?s1 ?item "''boom''"]
  have 2: "unload_plugin ?s1 ''Alpha'' =
        ?s1\<lparr>plugins_loaded := AList.delete ''Alpha'' (plugins_loaded ?s1),
          events := events ?s1 @ [UnregisterCalled ''Alpha'' (handle ?item), TracebackPrinted ''boom'']\<rparr>"
    and 3: "''Alpha'' \<notin> fst ` set (plugins_loaded (unload_plugin ?s1 ''Alpha''))"
    by blast+
  from 2 have "unload_plugin ?s1 ''Alpha'' =
     example_host\<lparr>events := [RegisterCalled ''Alpha'', StatusLoaded ''Alpha'',
                                 UnregisterCalled ''Alpha'' (PyObject 1), TracebackPrinted ''boom'']\<rparr>"
    unfolding example_load_alpha by (simp add: AList.delete_eq example_host_def)
  with 1 3 show ?thesis by (simp only: simp_thms)
qed

section \<open>Properties of the plugin scan\<close>






lemma scan_files_dir: "plugins_dir (scan_files fs s fns) = plugins_dir s"
  by (induction fns arbitrary: s) (auto simp: Let_def split: option.splits)










section \<open>Properties of the persisted set of enabled plugins\<close>

lemma py_split_nonempty: "py_split sep s \<noteq> []"
  by (induction s) (auto split: list.splits)

lemma py_split_no_sep: "sep \<notin> set s \<Longrightarrow> py_split sep s = [s]"
  by (induction s) auto

lemma py_split_append:
  "sep \<notin> set x \<Longrightarrow> py_split sep (x @ sep # rest) = x # py_split sep rest"
  by (induction x) auto

lemma py_split_join:
  "\<forall>x \<in> set xs. sep \<notin> set x \<Longrightarrow> xs \<noteq> [] \<Longrightarrow> py_split sep (py_join [sep] xs) = xs"
proof (induction xs)
  case Nil
  then show ?case by simp
next
  case (Cons x xs)
  show ?case
  proof (cases xs)
    case Nil
    with Cons.prems show ?thesis by (simp add: py_split_no_sep)
  next
    case (Cons y ys)
    with Cons.IH Cons.prems have "py_split sep (py_join [sep] xs) = xs" by simp
    with Cons Cons.prems show ?thesis by (simp add: py_split_append)
  qed
qed

lemma py_split_parts_no_sep: "w \<in> set (py_split sep s) \<Longrightarrow> sep \<notin> set w"
proof (induction s arbitrary: w)
  case Nil
  then show ?case by simp
next
  case (Cons c s)
  then show ?case
    using py_split_nonempty [of sep s]
    by (cases "py_split sep s") (auto split: if_splits)
qed

lemma py_strip_subset: "set (py_strip s) \<subseteq> set s"
proof -
  have "set (py_strip s) \<subseteq> set (dropWhile py_isspace s)"
    unfolding py_strip_def using set_dropWhileD [of _ py_isspace "rev (dropWhile py_isspace s)"]
    by auto
  then show ?thesis using set_dropWhileD [of _ py_isspace s] by auto
qed

lemma dropWhile_id: "xs = [] \<or> \<not> P (hd xs) \<Longrightarrow> dropWhile P xs = xs"
  by (cases xs) auto

lemma py_strip_idem: "py_strip (py_strip s) = py_strip s"
proof -
  define a where "a = dropWhile py_isspace s"
  define b where "b = dropWhile py_isspace (rev a)"
  have a: "a = [] \<or> \<not> py_isspace (hd a)"
    unfolding a_def using hd_dropWhile [of py_isspace s] by blast
  have b: "b = [] \<or> \<not> py_isspace (hd b)"
    unfolding b_def using hd_dropWhile [of py_isspace "rev a"] by blast
  have "rev b = [] \<or> \<not> py_isspace (hd (rev b))"
  proof (cases "b = []")
    case True
    then show ?thesis by simp
  next
    case False
    have "suffix b (rev a)" unfolding b_def by (rule suffix_dropWhile)
    then obtain p where "rev a = p @ b" by (auto simp: suffix_def)
    then have eq: "a = rev b @ rev p" by (metis rev_append rev_rev_ident)
    with False have "hd (rev b) = hd a" by simp
    moreover from eq False have "a \<noteq> []" by simp
    ultimately show ?thesis using a by metis
  qed
  then have 1: "dropWhile py_isspace (rev b) = rev b" by (rule dropWhile_id)
  have 2: "dropWhile py_isspace b = b" using b by (rule dropWhile_id)
  have "py_strip s = rev b" by (simp add: py_strip_def a_def b_def)
  moreover have "py_strip (rev b) = rev b" by (simp add: py_strip_def 1 2)
  ultimately show ?thesis by simp
qed


lemma read_after_write:
  assumes fin: "finite S" and clean: "\<forall>n \<in> S. n \<noteq> [] \<and> CHR '','' \<notin> set n \<and> py_strip n = n"
  shows "read_enabled_plugins (write_enabled_plugins s S) = S"
proof -
  let ?xs = "sorted_list_of_set S"
  have set_xs: "set ?xs = S" using fin by simp
  have raw: "qs_value (write_enabled_plugins s S) ''plugins/enabled'' [] = py_join '','' ?xs"
    by (simp add: write_enabled_plugins_def settings_save_def qs_value_def update_conv')
  show ?thesis
  proof (cases "?xs = []")
    case True
    with set_xs have "S = {}" by simp
    with True raw show ?thesis
      by (simp add: read_enabled_plugins_def py_strip_def)
  next
    case False
    have "\<forall>x \<in> set ?xs. CHR '','' \<notin> set x" using clean set_xs by blast
    then have 1: "py_split CHR '','' (py_join '','' ?xs) = ?xs"
      using False by (rule py_split_join)
    have 2: "map py_strip ?xs = ?xs"
      by (intro map_idI) (use clean set_xs in blast)
    have 3: "filter (\<lambda>n. n \<noteq> []) ?xs = ?xs"
      using clean set_xs by (simp add: filter_id_conv)
    have "read_enabled_plugins (write_enabled_plugins s S) =
        set (filter (\<lambda>n. n \<noteq> []) (map py_strip (py_split CHR '','' (py_join '','' ?xs))))"
      by (simp only: read_enabled_plugins_def raw Let_def)
    also have "\<dots> = set ?xs" by (simp only: 1 2 3)
    finally show ?thesis using set_xs by simp
  qed
qed

lemma read_finite: "finite (read_enabled_plugins s)"
  by (simp add: read_enabled_plugins_def)

lemma read_clean:
  "n \<in> read_enabled_plugins s \<Longrightarrow> n \<noteq> [] \<and> CHR '','' \<notin> set n \<and> py_strip n = n"
proof -
  assume "n \<in> read_enabled_plugins s"
  then obtain w where w: "w \<in> set (py_split CHR '','' (qs_value s ''plugins/enabled'' []))"
    and n: "n = py_strip w" and ne: "n \<noteq> []"
    by (auto simp: read_enabled_plugins_def)
  from w have "CHR '','' \<notin> set w" by (rule py_split_parts_no_sep)
  with n py_strip_subset [of w] have "CHR '','' \<notin> set n" by blast
  with n ne show ?thesis by (simp add: py_strip_idem)
qed

lemma read_qsettings:
  "qsettings s = qsettings s' \<Longrightarrow> read_enabled_plugins s = read_enabled_plugins s'"
  by (simp add: read_enabled_plugins_def qs_value_def)

lemma load_plugin_qsettings: "qsettings (fst (load_plugin imp s name)) = qsettings s"
  by (simp add: load_plugin_def load_failed_def load_done_def Let_def
      split: option.splits outcome.splits)

lemma unload_plugin_qsettings: "qsettings (unload_plugin s name) = qsettings s"
  by (simp add: unload_plugin_def Let_def split: option.splits outcome.splits)

lemma load_each_qsettings: "qsettings (load_each imp s names) = qsettings s"
  by (induction names arbitrary: s) (simp_all add: load_plugin_qsettings)

lemma unload_each_qsettings: "qsettings (unload_each s names) = qsettings s"
  by (induction names arbitrary: s) (simp_all add: unload_plugin_qsettings)

lemma toggle_on:
  "fst (toggle_names True names (current, changed)) = current \<union> set names"
  by (induction names arbitrary: current changed) auto

lemma toggle_off:
  "fst (toggle_names False names (current, changed)) = current - set names"
  by (induction names arbitrary: current changed) auto

lemma toggle_stays_changed: "snd (toggle_names on names (current, True))"
  by (induction names arbitrary: current) auto

lemma toggle_unchanged:
  "\<not> snd (toggle_names on names (current, changed)) \<Longrightarrow>
   fst (toggle_names on names (current, changed)) = current"
  by (induction names arbitrary: current changed)
    (auto simp: toggle_stays_changed split: if_splits)

lemma bulk_read:
  assumes ok: "\<forall>n \<in> fst (toggle_names on names (read_enabled_plugins s, False)).
                 n \<noteq> [] \<and> CHR '','' \<notin> set n \<and> py_strip n = n"
    and fin: "finite (fst (toggle_names on names (read_enabled_plugins s, False)))"
  shows "read_enabled_plugins (bulk_set_enabled imp s names on) =
         fst (toggle_names on names (read_enabled_plugins s, False))"
proof -
  obtain current changed where t: "toggle_names on names (read_enabled_plugins s, False) = (current, changed)"
    by (cases "toggle_names on names (read_enabled_plugins s, False)")
  show ?thesis
  proof (cases changed)
    case False
    with t toggle_unchanged [of on names "read_enabled_plugins s" False]
    have "current = read_enabled_plugins s" by simp
    with t False show ?thesis by (simp add: bulk_set_enabled_def)
  next
    case True
    let ?s1 = "write_enabled_plugins s current"
    have "qsettings (bulk_set_enabled imp s names on) = qsettings ?s1"
      using t True by (simp add: bulk_set_enabled_def Let_def load_each_qsettings unload_each_qsettings)
    then have "read_enabled_plugins (bulk_set_enabled imp s names on) = read_enabled_plugins ?s1"
      by (rule read_qsettings)
    also have "\<dots> = current"
      using ok fin t by (intro read_after_write) simp_all
    finally show ?thesis using t by simp
  qed
qed

text \<open>
  C9, as the code has it. For names that are not empty, contain no comma and have no
  whitespace at either end, enabling a list of names and reading the persisted set gives
  the set read before together with those names. Disabling a list of names and reading
  gives the set read before without them, for any names. Writing a finite set of such
  names under \<^verbatim>\<open>plugins/enabled\<close> and reading it gives the same set.
\<close>

theorem enabled_set_round_trip:
  "((\<forall>n \<in> set names. n \<noteq> [] \<and> CHR '','' \<notin> set n \<and> py_strip n = n) \<longrightarrow>
      read_enabled_plugins (bulk_set_enabled imp s names True) =
        read_enabled_plugins s \<union> set names) \<and>
   read_enabled_plugins (bulk_set_enabled imp s names False) =
     read_enabled_plugins s - set names \<and>
   (finite S \<and> (\<forall>n \<in> S. n \<noteq> [] \<and> CHR '','' \<notin> set n \<and> py_strip n = n) \<longrightarrow>
      read_enabled_plugins (write_enabled_plugins s S) = S)"
proof -
  have on: "read_enabled_plugins (bulk_set_enabled imp s names True) =
        read_enabled_plugins s \<union> set names"
    if "\<forall>n \<in> set names. n \<noteq> [] \<and> CHR '','' \<notin> set n \<and> py_strip n = n"
    using bulk_read [of True names s imp] that read_clean [of _ s] read_finite [of s]
    by (simp add: toggle_on) blast
  have off: "read_enabled_plugins (bulk_set_enabled imp s names False) =
     read_enabled_plugins s - set names"
    using bulk_read [of False names s imp] read_clean [of _ s] read_finite [of s]
    by (simp add: toggle_off)
  from on off read_after_write [of S s] show ?thesis by blast
qed


theorem enabled_set_round_trip_witness:
  "read_enabled_plugins (example_host\<lparr>qsettings := [(''plugins/enabled'', ''Alpha, Beta'')]\<rparr>)
     = {''Alpha'', ''Beta''} \<and>
   read_enabled_plugins
     (bulk_set_enabled example_importer
        (example_host\<lparr>qsettings := [(''plugins/enabled'', ''Alpha, Beta'')]\<rparr>) [''X'', ''Y''] True)
     = {''Alpha'', ''Beta'', ''X'', ''Y''} \<and>
   read_enabled_plugins
     (bulk_set_enabled example_importer
        (bulk_set_enabled example_importer
           (example_host\<lparr>qsettings := [(''plugins/enabled'', ''Alpha, Beta'')]\<rparr>) [''X'', ''Y''] True)
        [''X''] False)
     = {''Alpha'', ''Beta'', ''Y''} \<and>
   read_enabled_plugins (write_enabled_plugins example_host {''X'', ''Y''}) = {''X'', ''Y''}"
proof -
  let ?s = "example_host\<lparr>qsettings := [(''plugins/enabled'', ''Alpha, Beta'')]\<rparr>"
  let ?s1 = "bulk_set_enabled example_importer ?s [''X'', ''Y''] True"
  have clean: "\<forall>n \<in> set [''X'', ''Y'']. n \<noteq> [] \<and> CHR '','' \<notin> set n \<and> py_strip n = n"
    by (simp add: py_strip_def py_isspace_def)
  have clean': "finite {''X'', ''Y''} \<and>
      (\<forall>n \<in> {''X'', ''Y''}. n \<noteq> [] \<and> CHR '','' \<notin> set n \<and> py_strip n = n)"
    by (simp add: py_strip_def py_isspace_def)
  have r0: "read_enabled_plugins ?s = {''Alpha'', ''Beta''}"
    by (auto simp: read_enabled_plugins_def qs_value_def py_strip_def py_isspace_def)
  from clean enabled_set_round_trip [of "[''X'', ''Y'']" example_importer ?s]
  have r1: "read_enabled_plugins ?s1 = read_enabled_plugins ?s \<union> set [''X'', ''Y'']" by blast
  from enabled_set_round_trip [of "[''X'']" example_importer ?s1]
  have r2: "read_enabled_plugins (bulk_set_enabled example_importer ?s1 [''X''] False) =
      read_enabled_plugins ?s1 - set [''X'']" by blast
  from clean' enabled_set_round_trip [of _ _ example_host "{''X'', ''Y''}"]
  have r3: "read_enabled_plugins (write_enabled_plugins example_host {''X'', ''Y''}) = {''X'', ''Y''}"
    by blast
  have e1: "{''Alpha'', ''Beta''} \<union> set [''X'', ''Y''] = {''Alpha'', ''Beta'', ''X'', ''Y''}"
    by auto
  have e2: "{''Alpha'', ''Beta'', ''X'', ''Y''} - set [''X''] = {''Alpha'', ''Beta'', ''Y''}"
    by auto
  from r0 r1 r2 r3 e1 e2 show ?thesis by (simp only: simp_thms)
qed

text \<open>
  C9 as claimed fails for a name with whitespace at an end, though it has no comma:
  enabling the name of the file \<^verbatim>\<open>" X.py"\<close> writes it as it is, and reading strips it.
\<close>

theorem enabled_set_whitespace_counterexample:
  "CHR '','' \<notin> set '' X'' \<and>
   read_enabled_plugins example_host = {} \<and>
   qs_value (bulk_set_enabled example_importer example_host ['' X''] True) ''plugins/enabled'' []
     = '' X'' \<and>
   read_enabled_plugins (bulk_set_enabled example_importer example_host ['' X''] True) = {''X''} \<and>
   '' X'' \<notin> read_enabled_plugins (bulk_set_enabled example_importer example_host ['' X''] True)"
  by (auto simp: bulk_set_enabled_def read_enabled_plugins_def write_enabled_plugins_def
      settings_save_def qs_value_def py_strip_def py_isspace_def example_host_def Let_def)

end
